theory Spec2Isabelle
  imports Complex_Main "HOL-Library.Word"
begin

section \<open>Python strings as lists of code points\<close>

text \<open>
  A Python \<open>str\<close> is a sequence of Unicode code points and \<open>len\<close> counts code points,
  so a string is a list of code point numbers. \<open>text_of\<close> reads an ASCII literal.
\<close>

type_synonym codepoint = nat
type_synonym pystr = "codepoint list"

definition text_of :: "string \<Rightarrow> pystr" where
  "text_of s = map of_char s"

text \<open>
  \<open>str.isspace\<close>, \<open>str.rstrip()\<close> and \<open>str.split()\<close> agree on what whitespace is:
  the code points CPython lists in \<open>_PyUnicode_IsWhitespace\<close>.
\<close>

definition isspace :: "codepoint \<Rightarrow> bool" where
  "isspace c \<longleftrightarrow>
     (9 \<le> c \<and> c \<le> 13) \<or> (28 \<le> c \<and> c \<le> 32) \<or> c = 133 \<or> c = 160 \<or> c = 5760 \<or>
     (8192 \<le> c \<and> c \<le> 8202) \<or> c = 8232 \<or> c = 8233 \<or> c = 8239 \<or> c = 8287 \<or> c = 12288"

definition rstrip :: "pystr \<Rightarrow> pystr" where
  "rstrip s = rev (dropWhile isspace (rev s))"

text \<open>
  \<open>s[i:j]\<close> for integers \<open>i\<close>, \<open>j\<close>: a negative index counts from the end, both are
  clamped to \<open>0..len(s)\<close>, and the slice is empty when the bounds cross.
\<close>

definition clamp_index :: "nat \<Rightarrow> int \<Rightarrow> nat" where
  "clamp_index n i = (if i < 0 then nat (max (i + int n) 0) else min (nat i) n)"

definition py_slice :: "'a list \<Rightarrow> int \<Rightarrow> int \<Rightarrow> 'a list" where
  "py_slice s i j =
     (let lo = clamp_index (length s) i; hi = clamp_index (length s) j
      in take (hi - lo) (drop lo s))"

text \<open>
  \<open>s.split()\<close> with no argument: the maximal runs of non-whitespace, in order.
\<close>

function py_split :: "pystr \<Rightarrow> pystr list" where
  "py_split s =
     (let t = dropWhile isspace s
      in if t = [] then []
         else takeWhile (\<lambda>c. \<not> isspace c) t # py_split (dropWhile (\<lambda>c. \<not> isspace c) t))"
  by pat_completeness auto
termination
proof (relation "measure length")
  fix s t :: pystr
  assume t: "t = dropWhile isspace s" and ne: "t \<noteq> []"
  from ne obtain c cs where c: "t = c # cs" by (cases t) auto
  with t have "\<not> isspace c" by (metis hd_dropWhile list.sel(1) ne)
  then have "length (dropWhile (\<lambda>c. \<not> isspace c) t) \<le> length cs"
    using c by (simp add: length_dropWhile_le)
  moreover have "length t \<le> length s" using t by (simp add: length_dropWhile_le)
  ultimately show "(dropWhile (\<lambda>c. \<not> isspace c) t, s) \<in> measure length"
    using c by simp
qed simp

declare py_split.simps [simp del]

text \<open>\<open>sep.join(xs)\<close>.\<close>

fun py_join :: "'a list \<Rightarrow> 'a list list \<Rightarrow> 'a list" where
  "py_join sep [] = []"
| "py_join sep [x] = x"
| "py_join sep (x # y # ys) = x @ sep @ py_join sep (y # ys)"

section \<open>The chunker\<close>

text \<open>The paragraph marker \<open>"\n\n"\<close> appended to every chunk.\<close>

definition marker :: pystr where
  "marker = [10, 10]"

text \<open>\<open>end = min(start + max_chars, len(text))\<close>.\<close>

definition chunk_end :: "pystr \<Rightarrow> int \<Rightarrow> int \<Rightarrow> int" where
  "chunk_end txt max_chars start = min (start + max_chars) (int (length txt))"

text \<open>
  The \<open>while\<close> loop of \<open>split_text_to_chunks\<close>, with its variables \<open>start\<close> and
  \<open>chunks\<close> as arguments. The loop need not end, so the result is an option:
  \<open>None\<close> is a run that never returns.
\<close>

partial_function (option) split_loop :: "pystr \<Rightarrow> int \<Rightarrow> int \<Rightarrow> pystr list \<Rightarrow> pystr list option" where
  "split_loop txt max_chars start chunks =
     (if start < int (length txt)
      then split_loop txt max_chars (chunk_end txt max_chars start)
             (chunks @ [rstrip (py_slice txt start (chunk_end txt max_chars start)) @ marker])
      else Some chunks)"

declare split_loop.simps [code]

definition split_text_to_chunks :: "pystr \<Rightarrow> int \<Rightarrow> int \<Rightarrow> pystr list option" where
  "split_text_to_chunks txt max_tokens token_chars = split_loop txt (max_tokens * token_chars) 0 []"

text \<open>
  For a positive width the loop cuts the text into consecutive pieces of that many
  characters; \<open>chunks_from\<close> is that cutting as a total function, used to reason about
  the loop (\<open>split_loop_chunks_from\<close> below relates the two).
\<close>

function chunks_from :: "nat \<Rightarrow> pystr \<Rightarrow> pystr list" where
  "chunks_from n s =
     (if s = [] \<or> n = 0 then []
      else (rstrip (take n s) @ marker) # chunks_from n (drop n s))"
  by pat_completeness auto
termination
  by (relation "measure (\<lambda>(n, s). length s)") auto

declare chunks_from.simps [simp del]

text \<open>
  "Modulo whitespace": \<open>ws_normalize\<close> is the usual normal form
  \<open>" ".join(s.split())\<close>, in which runs of whitespace collapse to one space and the
  ends are trimmed. \<open>delete_ws\<close> is the coarser form that removes every whitespace
  character.
\<close>

definition ws_normalize :: "pystr \<Rightarrow> pystr" where
  "ws_normalize s = py_join [32] (py_split s)"

definition delete_ws :: "pystr \<Rightarrow> pystr" where
  "delete_ws s = filter (\<lambda>c. \<not> isspace c) s"

text \<open>
  \<open>with_markers n s\<close> is the text \<open>s\<close> itself with the marker put after each consecutive
  slice of \<open>n\<close> characters (the last slice, which may be shorter, included): what
  the chunks would add up to if no trailing whitespace were stripped.
\<close>

function with_markers :: "nat \<Rightarrow> pystr \<Rightarrow> pystr" where
  "with_markers n s =
     (if s = [] \<or> n = 0 then []
      else take n s @ marker @ with_markers n (drop n s))"
  by pat_completeness auto
termination
  by (relation "measure (\<lambda>(n, s). length s)") auto

declare with_markers.simps [simp del]

text \<open>
  \<open>cuts_at_space n s\<close>: no cut falls inside a word. At every position \<open>n\<close>, \<open>2n\<close>, ...
  strictly inside \<open>s\<close>, the character before the cut or the one after it is
  whitespace.
\<close>

function cuts_at_space :: "nat \<Rightarrow> pystr \<Rightarrow> bool" where
  "cuts_at_space n s =
     (if length s \<le> n \<or> n = 0 then True
      else (isspace (s ! (n - 1)) \<or> isspace (s ! n)) \<and> cuts_at_space n (drop n s))"
  by pat_completeness auto
termination
  by (relation "measure (\<lambda>(n, s). length s)") auto

declare cuts_at_space.simps [simp del]

section \<open>Python floats\<close>

text \<open>
  A Python \<open>float\<close> is an IEEE 754 binary64 number and every arithmetic operation
  returns the exact result rounded to the nearest such number, ties to the even
  significand. The finite floats are rationals, so a float is modelled as a rational
  and rounding as the function \<open>fl\<close>: \<open>expo x\<close> is the binary exponent of \<open>x\<close>
  (\<open>2 ^ expo x \<le> |x| < 2 ^ (expo x + 1)\<close>), the significand has 53 bits, and \<open>rne\<close>
  rounds to the nearest integer, ties to even. The exponent range is not bounded:
  overflow and subnormal numbers are left out. The cost computation cannot reach
  them: \<open>cost_values_moderate\<close> below bounds every value it rounds, for any text
  shorter than \<open>2 ^ 63\<close> characters (the most a Python string can hold).
\<close>

type_synonym pyfloat = rat

fun bitlen :: "int \<Rightarrow> nat" where
  "bitlen n = (if 0 < n then Suc (bitlen (n div 2)) else 0)"

declare bitlen.simps [simp del]

definition expo :: "rat \<Rightarrow> int" where
  "expo x =
     (let (p, q) = quotient_of \<bar>x\<bar>;
          d = int (bitlen p) - int (bitlen q)
      in if 2 powi d \<le> \<bar>x\<bar> then d else d - 1)"

definition rne :: "rat \<Rightarrow> int" where
  "rne y =
     (let f = \<lfloor>y\<rfloor>; r = y - of_int f
      in if r < 1 / 2 then f else if 1 / 2 < r then f + 1 else if even f then f else f + 1)"

definition fl :: "rat \<Rightarrow> rat" where
  "fl x = (if x = 0 then 0 else of_int (rne (x / 2 powi (expo x - 52))) * 2 powi (expo x - 52))"

text \<open>
  \<open>a / b\<close> on two integers is the correctly rounded quotient; an integer operand of a
  float operation is converted first; the float operations round their exact result.
\<close>

definition int_truediv :: "int \<Rightarrow> int \<Rightarrow> pyfloat" where
  "int_truediv a b = fl (of_int a / of_int b)"

definition float_of_int :: "int \<Rightarrow> pyfloat" where
  "float_of_int n = fl (of_int n)"

definition float_truediv :: "pyfloat \<Rightarrow> pyfloat \<Rightarrow> pyfloat" where
  "float_truediv x y = fl (x / y)"

definition float_mul :: "pyfloat \<Rightarrow> pyfloat \<Rightarrow> pyfloat" where
  "float_mul x y = fl (x * y)"

definition float_add :: "pyfloat \<Rightarrow> pyfloat \<Rightarrow> pyfloat" where
  "float_add x y = fl (x + y)"

text \<open>
  The binary64 format holds normal numbers from \<open>2 ^ -1022\<close> up to just under
  \<open>2 ^ 1024\<close>. A value is \<open>moderate\<close> when it is \<open>0\<close> or lies between \<open>2 ^ -40\<close> and
  \<open>2 ^ 80\<close>, far inside that range; rounding such a value meets neither overflow nor
  a subnormal result, so \<open>fl\<close> is what the hardware computes there.
\<close>

definition moderate :: "rat \<Rightarrow> bool" where
  "moderate x \<longleftrightarrow> x = 0 \<or> (1 / 2 ^ 40 \<le> x \<and> x \<le> 2 ^ 80)"

section \<open>The cost estimator\<close>

text \<open>The module constants; \<open>INPUT_COST_PER_MILLION\<close> is the float literal \<open>0.5\<close>.\<close>

definition INPUT_TOKEN_CHARS :: int where
  "INPUT_TOKEN_CHARS = 4"

definition INPUT_COST_PER_MILLION :: pyfloat where
  "INPUT_COST_PER_MILLION = 1 / 2"

definition OUTPUT_TOKENS_PER_SECOND :: int where
  "OUTPUT_TOKENS_PER_SECOND = 32"

definition WORDS_PER_SECOND :: int where
  "WORDS_PER_SECOND = 2"

definition OUTPUT_COST_PER_MILLION :: int where
  "OUTPUT_COST_PER_MILLION = 10"

text \<open>
  The returned dictionary: the fields \<open>cost_input\<close>, \<open>cost_output\<close> and \<open>cost_total\<close>
  are its keys \<open>'input'\<close>, \<open>'output'\<close> and \<open>'total'\<close>.
\<close>

record cost =
  cost_input :: pyfloat
  cost_output :: pyfloat
  cost_total :: pyfloat

definition cost_estimator :: "pystr \<Rightarrow> cost" where
  "cost_estimator txt =
     (let num_chars = int (length txt);
          num_input_tokens = int_truediv num_chars INPUT_TOKEN_CHARS;
          input_cost =
            float_mul (float_truediv num_input_tokens (float_of_int 1000000)) INPUT_COST_PER_MILLION;
          num_words = int (length (py_split txt));
          audio_seconds = int_truediv num_words WORDS_PER_SECOND;
          num_output_tokens = float_mul audio_seconds (float_of_int OUTPUT_TOKENS_PER_SECOND);
          output_cost =
            float_mul (float_truediv num_output_tokens (float_of_int 1000000))
              (float_of_int OUTPUT_COST_PER_MILLION);
          total_cost = float_add input_cost output_cost
      in \<lparr>cost_input = input_cost, cost_output = output_cost, cost_total = total_cost\<rparr>)"

text \<open>
  The two costs as functions of the character count and of the word count, named to
  state how \<open>cost_estimator\<close> depends on them (\<open>cost_estimator_fields\<close> below).
\<close>

definition input_cost_of :: "int \<Rightarrow> pyfloat" where
  "input_cost_of num_chars =
     float_mul (float_truediv (int_truediv num_chars INPUT_TOKEN_CHARS) (float_of_int 1000000))
       INPUT_COST_PER_MILLION"

definition output_cost_of :: "int \<Rightarrow> pyfloat" where
  "output_cost_of num_words =
     float_mul
       (float_truediv
          (float_mul (int_truediv num_words WORDS_PER_SECOND) (float_of_int OUTPUT_TOKENS_PER_SECOND))
          (float_of_int 1000000))
       (float_of_int OUTPUT_COST_PER_MILLION)"

section \<open>The audio assembler\<close>

text \<open>
  \<open>pcm\<close> is either one \<open>bytes\<close> object or a list of them. \<open>AudioSegment(...)\<close> and
  \<open>audio.export\<close> belong to an external library; the model records what
  \<open>save_mp3_file\<close> hands to them: the sample data and parameters of the segment, the
  file name and the format.
\<close>

type_synonym bytes = "8 word list"

datatype pcm_arg = Buffer bytes | Buffers "bytes list"

record audio_segment =
  seg_data :: bytes
  seg_sample_width :: int
  seg_frame_rate :: int
  seg_channels :: int

record export_call =
  exp_audio :: audio_segment
  exp_filename :: pystr
  exp_format :: pystr

definition save_mp3_file :: "pystr \<Rightarrow> pcm_arg \<Rightarrow> int \<Rightarrow> int \<Rightarrow> int \<Rightarrow> export_call" where
  "save_mp3_file filename pcm channels rate sample_width =
     (let pcm' = (case pcm of Buffers parts \<Rightarrow> py_join [] parts | Buffer b \<Rightarrow> b);
          audio = \<lparr>seg_data = pcm', seg_sample_width = sample_width,
                   seg_frame_rate = rate, seg_channels = channels\<rparr>
      in \<lparr>exp_audio = audio, exp_filename = filename, exp_format = text_of ''mp3''\<rparr>)"

section \<open>Facts about the string operations\<close>

lemmas eval_defs =
  split_text_to_chunks_def split_loop.simps chunk_end_def text_of_def py_slice_def
  clamp_index_def rstrip_def isspace_def marker_def

lemma length_rstrip_le: "length (rstrip s) \<le> length s"
  unfolding rstrip_def by (metis length_rev length_dropWhile_le)

lemma rstrip_decomp: "s = rstrip s @ rev (takeWhile isspace (rev s))"
proof -
  have "rev s = takeWhile isspace (rev s) @ dropWhile isspace (rev s)" by simp
  then have "rev (rev s) = rev (takeWhile isspace (rev s) @ dropWhile isspace (rev s))" by simp
  then show ?thesis by (simp add: rstrip_def del: takeWhile_dropWhile_id)
qed

lemma rstrip_idem: "rstrip (rstrip s) = rstrip s"
  by (simp add: rstrip_def)

lemma rstrip_replicate: "\<not> isspace c \<Longrightarrow> rstrip (replicate n c) = replicate n c"
  by (simp add: rstrip_def dropWhile_replicate)

lemma delete_ws_rstrip: "delete_ws (rstrip s) = delete_ws s"
proof -
  have "delete_ws (rev (takeWhile isspace (rev s))) = []"
    by (auto simp: delete_ws_def filter_empty_conv dest: set_takeWhileD)
  moreover have "delete_ws s = delete_ws (rstrip s) @ delete_ws (rev (takeWhile isspace (rev s)))"
    unfolding delete_ws_def by (metis rstrip_decomp filter_append)
  ultimately show ?thesis by simp
qed

lemma delete_ws_marker: "delete_ws marker = []"
  by (simp add: delete_ws_def marker_def isspace_def)

lemma delete_ws_append: "delete_ws (a @ b) = delete_ws a @ delete_ws b"
  by (simp add: delete_ws_def)

text \<open>How \<open>py_split\<close> treats whitespace between and after the words.\<close>

lemma py_split_space: "isspace c \<Longrightarrow> py_split (c # s) = py_split s"
proof -
  assume c: "isspace c"
  have "py_split (c # s) =
      (let t = dropWhile isspace (c # s)
       in if t = [] then []
          else takeWhile (\<lambda>c. \<not> isspace c) t # py_split (dropWhile (\<lambda>c. \<not> isspace c) t))"
    by (rule py_split.simps)
  also have "\<dots> =
      (let t = dropWhile isspace s
       in if t = [] then []
          else takeWhile (\<lambda>c. \<not> isspace c) t # py_split (dropWhile (\<lambda>c. \<not> isspace c) t))"
    using c by simp
  also have "\<dots> = py_split s" by (rule py_split.simps[symmetric])
  finally show ?thesis .
qed

lemma py_split_nonspace:
  "\<not> isspace c \<Longrightarrow>
   py_split (c # s) =
     (c # takeWhile (\<lambda>c. \<not> isspace c) s) # py_split (dropWhile (\<lambda>c. \<not> isspace c) s)"
  by (subst py_split.simps) simp

lemma py_split_Nil: "py_split [] = []"
  by (simp add: py_split.simps)

lemma py_split_append_space:
  assumes "isspace w"
  shows "py_split (u @ w # r) = py_split u @ py_split r"
proof (induction "length u" arbitrary: u rule: less_induct)
  case less
  show ?case
  proof (cases u)
    case Nil
    then show ?thesis using assms by (simp add: py_split_space py_split_Nil)
  next
    case (Cons c u')
    show ?thesis
    proof (cases "isspace c")
      case True
      have "py_split (u' @ w # r) = py_split u' @ py_split r"
        using less.hyps[of u'] Cons by simp
      then show ?thesis using True Cons by (simp add: py_split_space)
    next
      case False
      let ?ns = "\<lambda>c. \<not> isspace c"
      show ?thesis
      proof (cases "\<exists>x \<in> set u'. isspace x")
        case True
        then obtain x where x: "x \<in> set u'" "\<not> ?ns x" by auto
        have tw: "takeWhile ?ns (u' @ w # r) = takeWhile ?ns u'"
          using x by (rule takeWhile_append1)
        have dw: "dropWhile ?ns (u' @ w # r) = dropWhile ?ns u' @ w # r"
          using x by (rule dropWhile_append1)
        have "length (dropWhile ?ns u') < length u"
          using Cons length_dropWhile_le[of ?ns u'] by simp
        from less.hyps[OF this]
        have "py_split (dropWhile ?ns u' @ w # r) = py_split (dropWhile ?ns u') @ py_split r" .
        then show ?thesis using False Cons by (simp add: py_split_nonspace tw dw)
      next
        case no: False
        then have all: "\<And>x. x \<in> set u' \<Longrightarrow> ?ns x" by auto
        have tw: "takeWhile ?ns (u' @ w # r) = u'"
          using takeWhile_append2[of u' ?ns "w # r"] all assms by simp
        have dw: "dropWhile ?ns (u' @ w # r) = w # r"
          using dropWhile_append2[of u' ?ns "w # r"] all assms by simp
        have tw': "takeWhile ?ns u' = u'" and dw': "dropWhile ?ns u' = []"
          using all by simp_all
        show ?thesis using False Cons assms
          by (simp add: py_split_nonspace tw dw tw' dw' py_split_space py_split_Nil)
      qed
    qed
  qed
qed

lemma py_split_all_space: "\<forall>x \<in> set ws. isspace x \<Longrightarrow> py_split ws = []"
  by (induction ws) (simp_all add: py_split_Nil py_split_space)

lemma py_split_trailing_space:
  assumes "\<forall>x \<in> set ws. isspace x"
  shows "py_split (a @ ws) = py_split a"
proof (cases ws)
  case Nil
  then show ?thesis by simp
next
  case (Cons w ws')
  with assms have "isspace w" "\<forall>x \<in> set ws'. isspace x" by simp_all
  then show ?thesis using Cons by (simp add: py_split_append_space py_split_all_space)
qed

lemma py_split_rstrip: "py_split (rstrip s) = py_split s"
proof -
  have "\<forall>x \<in> set (rev (takeWhile isspace (rev s))). isspace x"
    by (auto dest: set_takeWhileD)
  from py_split_trailing_space[OF this, of "rstrip s"] show ?thesis
    using rstrip_decomp[of s] by simp
qed

lemma py_split_marker: "py_split (a @ marker @ b) = py_split a @ py_split b"
proof -
  have nl: "isspace 10" by (simp add: isspace_def)
  have "py_split (a @ marker @ b) = py_split (a @ 10 # (10 # b))" by (simp add: marker_def)
  also have "\<dots> = py_split a @ py_split (10 # b)" using nl by (rule py_split_append_space)
  also have "\<dots> = py_split a @ py_split b" using nl by (simp add: py_split_space)
  finally show ?thesis .
qed

lemma py_split_cut:
  assumes "0 < n" and "n < length s" and "isspace (s ! (n - 1)) \<or> isspace (s ! n)"
  shows "py_split s = py_split (take n s) @ py_split (drop n s)"
  using assms(3)
proof
  assume sp: "isspace (s ! n)"
  have d: "drop n s = s ! n # drop (Suc n) s" using assms(2) by (simp add: Cons_nth_drop_Suc)
  have "s = take n s @ s ! n # drop (Suc n) s" using d by (metis append_take_drop_id)
  then have "py_split s = py_split (take n s @ s ! n # drop (Suc n) s)" by simp
  also have "\<dots> = py_split (take n s) @ py_split (drop (Suc n) s)"
    using sp by (rule py_split_append_space)
  also have "py_split (drop (Suc n) s) = py_split (drop n s)"
    using sp by (simp add: d py_split_space)
  finally show ?thesis .
next
  assume sp: "isspace (s ! (n - 1))"
  obtain m where m: "n = Suc m" using assms(1) by (cases n) auto
  have sp': "isspace (s ! m)" using sp m by simp
  have t: "take n s = take m s @ [s ! m]" using assms(2) m by (simp add: take_Suc_conv_app_nth)
  have "s = take m s @ s ! m # drop n s" using t by (metis append_take_drop_id append.assoc append_Cons append_Nil)
  then have "py_split s = py_split (take m s @ s ! m # drop n s)" by simp
  also have "\<dots> = py_split (take m s) @ py_split (drop n s)"
    using sp' by (rule py_split_append_space)
  also have "py_split (take m s) = py_split (take n s)"
    using py_split_append_space[OF sp', of "take m s" "[]"] by (simp add: t py_split_Nil)
  finally show ?thesis .
qed

lemma with_markers_words:
  "0 < n \<Longrightarrow> cuts_at_space n s \<Longrightarrow> py_split (with_markers n s) = py_split s"
proof (induction n s rule: with_markers.induct)
  case (1 n s)
  show ?case
  proof (cases "s = []")
    case True
    then show ?thesis by (simp add: with_markers.simps)
  next
    case False
    have w: "py_split (with_markers n s) = py_split (take n s) @ py_split (with_markers n (drop n s))"
      using False "1.prems"(1) by (subst with_markers.simps) (simp add: py_split_marker)
    show ?thesis
    proof (cases "length s \<le> n")
      case True
      then show ?thesis using w by (simp add: with_markers.simps py_split_Nil)
    next
      case long: False
      with "1.prems" have c: "isspace (s ! (n - 1)) \<or> isspace (s ! n)" "cuts_at_space n (drop n s)"
        by (subst (asm) cuts_at_space.simps, simp)+
      have "py_split (with_markers n (drop n s)) = py_split (drop n s)"
        using "1.IH" False "1.prems"(1) c(2) by simp
      moreover have "py_split s = py_split (take n s) @ py_split (drop n s)"
        using "1.prems"(1) long c(1) by (intro py_split_cut) simp_all
      ultimately show ?thesis using w by simp
    qed
  qed
qed

section \<open>The loop for a positive width\<close>

lemma py_slice_window:
  assumes "0 \<le> start" "start < int (length s)" "1 \<le> mc"
  shows "py_slice s start (chunk_end s mc start) = take (nat mc) (drop (nat start) s)"
  using assms
  by (auto simp: py_slice_def chunk_end_def clamp_index_def Let_def min_def nat_add_distrib)

lemma split_loop_chunks_from:
  assumes "1 \<le> mc" "0 \<le> start"
  shows "split_loop s mc start acc = Some (acc @ chunks_from (nat mc) (drop (nat start) s))"
  using assms
proof (induction "length s - nat start" arbitrary: start acc rule: less_induct)
  case less
  show ?case
  proof (cases "start < int (length s)")
    case False
    then show ?thesis using less.prems
      by (subst split_loop.simps) (simp add: chunks_from.simps)
  next
    case True
    let ?e = "chunk_end s mc start"
    have e: "0 \<le> ?e" "length s - nat ?e < length s - nat start"
      using True less.prems by (auto simp: chunk_end_def)
    have d: "drop (nat ?e) s = drop (nat mc) (drop (nat start) s)"
      using True less.prems by (auto simp: chunk_end_def min_def nat_add_distrib add.commute)
    have ne: "drop (nat start) s \<noteq> []" using True less.prems by auto
    show ?thesis
      apply (subst split_loop.simps)
      apply (simp only: True if_True)
      apply (subst less.hyps[OF e(2) less.prems(1) e(1)])
      apply (subst (2) chunks_from.simps)
      using ne less.prems True
      apply (simp add: py_slice_window d)
      done
  qed
qed

lemma split_text_to_chunks_eq:
  assumes "1 \<le> max_tokens * token_chars"
  shows "split_text_to_chunks txt max_tokens token_chars =
         Some (chunks_from (nat (max_tokens * token_chars)) txt)"
  using split_loop_chunks_from[OF assms, where start=0 and s="txt" and acc="[]"]
  by (simp add: split_text_to_chunks_def)

lemma pos_product: "0 < (a::int) \<Longrightarrow> 0 < b \<Longrightarrow> 1 \<le> a * b"
  using mult_pos_pos[of a b] by linarith

lemma chunks_from_shape:
  "c \<in> set (chunks_from n s) \<Longrightarrow> \<exists>b. c = b @ marker \<and> rstrip b = b \<and> length b \<le> n"
proof (induction n s rule: chunks_from.induct)
  case (1 n s)
  show ?case
  proof (cases "s = [] \<or> n = 0")
    case True
    with "1.prems" show ?thesis by (simp add: chunks_from.simps)
  next
    case False
    with "1.prems" have "c = rstrip (take n s) @ marker \<or> c \<in> set (chunks_from n (drop n s))"
      by (subst (asm) chunks_from.simps) auto
    then show ?thesis
    proof
      assume "c = rstrip (take n s) @ marker"
      moreover have "length (rstrip (take n s)) \<le> n"
        using length_rstrip_le[of "take n s"] by simp
      ultimately show ?thesis using rstrip_idem by blast
    next
      assume "c \<in> set (chunks_from n (drop n s))"
      then show ?thesis using "1.IH" False by blast
    qed
  qed
qed

lemma chunks_from_delete_ws:
  "0 < n \<Longrightarrow> delete_ws (concat (chunks_from n s)) = delete_ws s"
proof (induction n s rule: chunks_from.induct)
  case (1 n s)
  show ?case
  proof (cases "s = []")
    case True
    then show ?thesis by (simp add: chunks_from.simps)
  next
    case False
    have "delete_ws (concat (chunks_from n s)) = delete_ws (take n s) @ delete_ws (drop n s)"
      using False "1.prems" "1.IH"
      by (subst chunks_from.simps)
         (simp add: delete_ws_append delete_ws_rstrip delete_ws_marker)
    also have "\<dots> = delete_ws s"
      by (metis delete_ws_append append_take_drop_id)
    finally show ?thesis .
  qed
qed

lemma chunks_from_length: "0 < n \<Longrightarrow> length (chunks_from n s) \<le> length s"
proof (induction n s rule: chunks_from.induct)
  case (1 n s)
  show ?case
  proof (cases "s = []")
    case True
    then show ?thesis by (simp add: chunks_from.simps)
  next
    case False
    then have "length (chunks_from n (drop n s)) \<le> length s - n"
      using "1.IH" "1.prems" by simp
    moreover have "0 < length s" using False by simp
    ultimately have "Suc (length (chunks_from n (drop n s))) \<le> length s"
      using "1.prems" by arith
    then show ?thesis using False "1.prems"
      by (subst chunks_from.simps) simp
  qed
qed

lemma chunks_from_count: "0 < n \<Longrightarrow> length (chunks_from n s) = (length s + n - 1) div n"
proof (induction n s rule: chunks_from.induct)
  case (1 n s)
  show ?case
  proof (cases "s = []")
    case True
    then show ?thesis using "1.prems" by (simp add: chunks_from.simps)
  next
    case False
    then have ih: "length (chunks_from n (drop n s)) = (length s - n + n - 1) div n"
      using "1.IH" "1.prems" by simp
    have split: "length s + n - 1 = (length s - 1) + n" using False by (cases s) simp_all
    have "Suc ((length s - n + n - 1) div n) = (length s + n - 1) div n"
    proof (cases "n \<le> length s")
      case True
      then have "length s - n + n - 1 = length s - 1" by simp
      moreover note split
      moreover have "(length s - 1 + n) div n = Suc ((length s - 1) div n)"
        using "1.prems" by simp
      ultimately show ?thesis by simp
    next
      case False
      then have "length s - n + n - 1 = n - 1" by simp
      moreover note split
      moreover have "(length s - 1 + n) div n = Suc ((length s - 1) div n)"
        using "1.prems" by simp
      moreover have "(length s - 1) div n = 0" "(n - 1) div n = 0" using False "1.prems" by simp_all
      ultimately show ?thesis by simp
    qed
    then show ?thesis using False "1.prems" ih
      by (subst chunks_from.simps) simp
  qed
qed

lemma chunks_from_nth:
  "0 < n \<Longrightarrow> k < length (chunks_from n s) \<Longrightarrow>
   chunks_from n s ! k = rstrip (take n (drop (k * n) s)) @ marker"
proof (induction n s arbitrary: k rule: chunks_from.induct)
  case (1 n s)
  from "1.prems"(2) have ne: "s \<noteq> []" by (auto simp: chunks_from.simps)
  have unfold: "chunks_from n s = (rstrip (take n s) @ marker) # chunks_from n (drop n s)"
    using ne "1.prems"(1) by (subst chunks_from.simps) simp
  show ?case
  proof (cases k)
    case 0
    then show ?thesis by (simp add: unfold)
  next
    case (Suc j)
    with "1.prems"(2) have "j < length (chunks_from n (drop n s))" by (simp add: unfold)
    from "1.IH"[OF _ "1.prems"(1) this] ne "1.prems"(1)
    have "chunks_from n (drop n s) ! j = rstrip (take n (drop (j * n) (drop n s))) @ marker" by simp
    then show ?thesis using Suc by (simp add: unfold add.commute)
  qed
qed

lemma chunks_from_words:
  "0 < n \<Longrightarrow> py_split (concat (chunks_from n s)) = py_split (with_markers n s)"
proof (induction n s rule: chunks_from.induct)
  case (1 n s)
  show ?case
  proof (cases "s = []")
    case True
    then show ?thesis by (simp add: chunks_from.simps with_markers.simps)
  next
    case False
    have ih: "py_split (concat (chunks_from n (drop n s))) = py_split (with_markers n (drop n s))"
      using "1.IH" False "1.prems" by simp
    have "concat (chunks_from n s) = rstrip (take n s) @ marker @ concat (chunks_from n (drop n s))"
      using False "1.prems" by (subst chunks_from.simps) simp
    then have "py_split (concat (chunks_from n s)) =
        py_split (take n s) @ py_split (concat (chunks_from n (drop n s)))"
      by (simp only: py_split_marker py_split_rstrip)
    moreover have "with_markers n s = take n s @ marker @ with_markers n (drop n s)"
      using False "1.prems" by (subst with_markers.simps) simp
    then have "py_split (with_markers n s) = py_split (take n s) @ py_split (with_markers n (drop n s))"
      by (simp only: py_split_marker)
    ultimately show ?thesis using ih by simp
  qed
qed

section \<open>The loop for a width that is not positive\<close>

lemma split_loop_stuck:
  assumes "split_loop s mc start acc = Some r"
  shows "\<not> (mc \<le> 0 \<and> start < int (length s))"
proof (rule split_loop.raw_induct
    [where P="\<lambda>s mc start acc r. \<not> (mc \<le> 0 \<and> start < int (length s))", OF _ assms])
  fix f :: "pystr \<Rightarrow> int \<Rightarrow> int \<Rightarrow> pystr list \<Rightarrow> pystr list option"
  fix tx mc start chunks r
  assume IH: "\<And>a b c d y. f a b c d = Some y \<Longrightarrow> \<not> (b \<le> 0 \<and> c < int (length a))"
  assume body: "(if start < int (length tx)
      then f tx mc (chunk_end tx mc start)
            (chunks @ [rstrip (py_slice tx start (chunk_end tx mc start)) @ marker])
      else Some chunks) = Some r"
  show "\<not> (mc \<le> 0 \<and> start < int (length tx))"
  proof
    assume a: "mc \<le> 0 \<and> start < int (length tx)"
    then have lt: "chunk_end tx mc start < int (length tx)" by (auto simp: chunk_end_def)
    from a body have "f tx mc (chunk_end tx mc start)
       (chunks @ [rstrip (py_slice tx start (chunk_end tx mc start)) @ marker]) = Some r"
      by simp
    from IH[OF this] a lt show False by simp
  qed
qed

lemma split_loop_None:
  assumes "mc \<le> 0" "start < int (length s)"
  shows "split_loop s mc start acc = None"
proof (cases "split_loop s mc start acc")
  case None
  then show ?thesis .
next
  case (Some r)
  from split_loop_stuck[OF this] assms show ?thesis by simp
qed

section \<open>Facts about rounding\<close>

lemma bitlen_bounds: "0 < n \<Longrightarrow> n < 2 ^ bitlen n \<and> 2 ^ bitlen n \<le> 2 * n"
proof (induction n rule: bitlen.induct)
  case (1 n)
  show ?case
  proof (cases "n = 1")
    case True
    then show ?thesis by (simp add: bitlen.simps)
  next
    case False
    with "1.prems" have m: "0 < n div 2" by simp
    from "1.IH"[OF "1.prems" m]
    have ih: "n div 2 < 2 ^ bitlen (n div 2)" "2 ^ bitlen (n div 2) \<le> 2 * (n div 2)" by simp_all
    have b: "bitlen n = Suc (bitlen (n div 2))" using "1.prems" by (subst bitlen.simps) simp
    have "n < 2 * 2 ^ bitlen (n div 2)" using ih(1) by linarith
    moreover have "2 * 2 ^ bitlen (n div 2) \<le> 2 * n" using ih(2) by linarith
    ultimately show ?thesis by (simp add: b)
  qed
qed

lemma bitlen_bounds_rat:
  assumes "0 < n"
  shows "rat_of_int n < 2 ^ bitlen n \<and> 2 ^ bitlen n \<le> 2 * rat_of_int n"
proof -
  from bitlen_bounds[OF assms]
  have "rat_of_int n < rat_of_int (2 ^ bitlen n)" and "rat_of_int (2 ^ bitlen n) \<le> rat_of_int (2 * n)"
    by (simp_all only: of_int_less_iff of_int_le_iff)
  then show ?thesis by simp
qed

lemma expo_bounds:
  assumes "x \<noteq> 0"
  shows "2 powi expo x \<le> \<bar>x\<bar> \<and> \<bar>x\<bar> < 2 powi (expo x + 1)"
proof -
  obtain p q where pq: "quotient_of \<bar>x\<bar> = (p, q)" by (cases "quotient_of \<bar>x\<bar>")
  have q: "0 < q" using pq by (rule quotient_of_denom_pos)
  have x: "\<bar>x\<bar> = of_int p / of_int q" using pq by (rule quotient_of_div)
  have "0 < rat_of_int p / rat_of_int q" using assms x by (metis zero_less_abs_iff)
  then have p: "0 < p" using q by (simp add: zero_less_divide_iff)
  define d where "d = int (bitlen p) - int (bitlen q)"
  have bp: "(of_int p :: rat) < 2 ^ bitlen p" "(2::rat) ^ bitlen p \<le> 2 * of_int p"
    using bitlen_bounds_rat[OF p] by simp_all
  have bq: "(of_int q :: rat) < 2 ^ bitlen q" "(2::rat) ^ bitlen q \<le> 2 * of_int q"
    using bitlen_bounds_rat[OF q] by simp_all
  have dd: "(2::rat) powi d = 2 ^ bitlen p / 2 ^ bitlen q"
    by (simp add: d_def power_int_diff)
  have qpos: "(0::rat) < of_int q" and ppos: "(0::rat) < of_int p" using p q by simp_all
  have up: "\<bar>x\<bar> < 2 powi (d + 1)"
  proof -
    have "of_int p * (2::rat) ^ bitlen q < 2 ^ bitlen p * (2 * of_int q)"
      using bp(1) bq(2) ppos by (intro mult_less_le_imp_less) simp_all
    then have "of_int p / of_int q < 2 * ((2::rat) ^ bitlen p / 2 ^ bitlen q)"
      using qpos by (simp add: field_simps)
    then show ?thesis by (simp add: x dd power_int_add mult.commute)
  qed
  have lo: "2 powi (d - 1) < \<bar>x\<bar>"
  proof -
    have "(2::rat) ^ bitlen p * of_int q < (2 * of_int p) * 2 ^ bitlen q"
      using bp(2) bq(1) qpos by (intro mult_le_less_imp_less) simp_all
    then have "(2::rat) ^ bitlen p / 2 ^ bitlen q / 2 < of_int p / of_int q"
      using qpos by (simp add: field_simps)
    then show ?thesis by (simp add: x dd power_int_diff)
  qed
  have e: "expo x = (if 2 powi d \<le> \<bar>x\<bar> then d else d - 1)"
    by (simp add: expo_def pq d_def Let_def)
  show ?thesis
  proof (cases "2 powi d \<le> \<bar>x\<bar>")
    case True
    then show ?thesis using up e by simp
  next
    case False
    then show ?thesis using lo e by simp
  qed
qed


lemma pow2_less_imp_less:
  assumes "(2::rat) powi a < 2 powi b"
  shows "a < b"
proof (rule ccontr)
  assume "\<not> a < b"
  then have "b \<le> a" by simp
  then have "(2::rat) powi b \<le> 2 powi a" by (rule power_int_increasing) simp
  with assms show False by simp
qed

lemma expo_unique:
  assumes "2 powi e \<le> \<bar>x\<bar>" and "\<bar>x\<bar> < 2 powi (e + 1)"
  shows "expo x = e"
proof -
  have "(0::rat) < 2 powi e" by simp
  with assms(1) have "0 < \<bar>x\<bar>" by linarith
  then have "x \<noteq> 0" by simp
  from expo_bounds[OF this] have b: "2 powi expo x \<le> \<bar>x\<bar>" "\<bar>x\<bar> < 2 powi (expo x + 1)" by simp_all
  have "(2::rat) powi e < 2 powi (expo x + 1)" using assms(1) b(2) by (rule le_less_trans)
  then have "e < expo x + 1" by (rule pow2_less_imp_less)
  moreover have "(2::rat) powi expo x < 2 powi (e + 1)" using b(1) assms(2) by (rule le_less_trans)
  then have "expo x < e + 1" by (rule pow2_less_imp_less)
  ultimately show ?thesis by simp
qed

lemma expo_mono:
  assumes "0 < x" and "x \<le> y"
  shows "expo x \<le> expo y"
proof -
  have "x \<noteq> 0" "y \<noteq> 0" using assms by auto
  from expo_bounds[OF this(1)] expo_bounds[OF this(2)] assms
  have "(2::rat) powi expo x < 2 powi (expo y + 1)" by simp
  then have "expo x < expo y + 1" by (rule pow2_less_imp_less)
  then show ?thesis by simp
qed

lemma rne_lower: "\<lfloor>y\<rfloor> \<le> rne y"
  by (simp add: rne_def Let_def)

lemma rne_upper: "rne y \<le> \<lfloor>y\<rfloor> + 1"
  by (simp add: rne_def Let_def)

lemma rne_of_int: "rne (of_int n) = n"
  by (simp add: rne_def)

lemma rne_mono:
  assumes "a \<le> b"
  shows "rne a \<le> rne b"
proof (cases "\<lfloor>a\<rfloor> = \<lfloor>b\<rfloor>")
  case True
  with assms have "a - of_int \<lfloor>a\<rfloor> \<le> b - of_int \<lfloor>b\<rfloor>" by simp
  with True show ?thesis by (auto simp: rne_def Let_def)
next
  case False
  with assms have "\<lfloor>a\<rfloor> + 1 \<le> \<lfloor>b\<rfloor>" using floor_mono[of a b] by linarith
  then show ?thesis using rne_upper[of a] rne_lower[of b] by linarith
qed

lemma fl_zero: "fl 0 = 0"
  by (simp add: fl_def)

lemma fl_nonneg:
  assumes "0 \<le> x"
  shows "0 \<le> fl x"
proof (cases "x = 0")
  case True
  then show ?thesis by (simp add: fl_def)
next
  case False
  have "0 \<le> x / 2 powi (expo x - 52)" using assms by simp
  then have "0 \<le> \<lfloor>x / 2 powi (expo x - 52)\<rfloor>" by simp
  then have "0 \<le> rne (x / 2 powi (expo x - 52))" using rne_lower order_trans by blast
  then show ?thesis using False by (simp add: fl_def)
qed

lemma fl_range:
  assumes "0 < x"
  shows "2 powi expo x \<le> fl x \<and> fl x \<le> 2 powi (expo x + 1)"
proof -
  define u :: rat where "u = 2 powi (expo x - 52)"
  have u: "0 < u" by (simp add: u_def)
  have x: "x \<noteq> 0" using assms by simp
  from expo_bounds[OF x] assms have b: "2 powi expo x \<le> x" "x < 2 powi (expo x + 1)" by simp_all
  have lo_u: "(2::rat) powi expo x = of_int (2 ^ 52) * u"
    by (simp add: u_def power_int_diff)
  have hi_u: "(2::rat) powi (expo x + 1) = of_int (2 ^ 53) * u"
    by (simp add: u_def power_int_diff power_int_add)
  have "of_int (2 ^ 52) \<le> x / u" using b(1) u by (simp add: lo_u pos_le_divide_eq)
  then have "rne (of_int (2 ^ 52)) \<le> rne (x / u)" by (rule rne_mono)
  then have lo: "of_int (2 ^ 52) * u \<le> of_int (rne (x / u)) * u"
    using u by (simp add: rne_of_int del: of_int_power of_int_numeral)
  have "x / u \<le> of_int (2 ^ 53)" using b(2) u by (simp add: hi_u pos_divide_le_eq)
  then have "rne (x / u) \<le> rne (of_int (2 ^ 53))" by (rule rne_mono)
  then have hi: "of_int (rne (x / u)) * u \<le> of_int (2 ^ 53) * u"
    using u by (simp add: rne_of_int del: of_int_power of_int_numeral)
  have "fl x = of_int (rne (x / u)) * u" using x by (simp add: fl_def u_def)
  then show ?thesis using lo hi by (simp only: lo_u hi_u)
qed

lemma fl_mono:
  assumes "0 \<le> x" and "x \<le> y"
  shows "fl x \<le> fl y"
proof (cases "x = 0")
  case True
  then show ?thesis using fl_nonneg[of y] assms by (simp add: fl_zero)
next
  case False
  then have x: "0 < x" and y: "0 < y" using assms by simp_all
  have le: "expo x \<le> expo y" using x assms(2) by (rule expo_mono)
  show ?thesis
  proof (cases "expo x = expo y")
    case True
    have "x / 2 powi (expo y - 52) \<le> y / 2 powi (expo y - 52)"
      using assms(2) by (simp add: divide_right_mono)
    then have "rne (x / 2 powi (expo y - 52)) \<le> rne (y / 2 powi (expo y - 52))" by (rule rne_mono)
    then show ?thesis using x y True by (simp add: fl_def)
  next
    case False
    with le have "expo x + 1 \<le> expo y" by simp
    then have "(2::rat) powi (expo x + 1) \<le> 2 powi expo y" by (simp add: power_int_increasing)
    then show ?thesis using fl_range[OF x] fl_range[OF y] by linarith
  qed
qed

lemma fl_exact:
  assumes "\<bar>m\<bar> < 2 ^ 53"
  shows "fl (of_int m * 2 powi k) = of_int m * 2 powi k"
proof (cases "m = 0")
  case True
  then show ?thesis by (simp add: fl_def)
next
  case False
  define x :: rat where "x = of_int m * 2 powi k"
  have x: "x \<noteq> 0" using False by (simp add: x_def)
  define j where "j = k - (expo x - 52)"
  have "\<bar>x\<bar> = of_int \<bar>m\<bar> * 2 powi k" by (simp add: x_def abs_mult)
  also have "\<dots> < of_int (2 ^ 53) * 2 powi k"
    using assms by (simp only: of_int_less_iff mult_less_cancel_right_pos zero_less_power_int zero_less_numeral)
  also have "\<dots> = 2 powi (k + 53)" by (simp add: power_int_add)
  finally have "\<bar>x\<bar> < 2 powi (k + 53)" .
  with expo_bounds[OF x] have "(2::rat) powi expo x < 2 powi (k + 53)" by simp
  then have "expo x < k + 53" by (rule pow2_less_imp_less)
  then have j: "0 \<le> j" by (simp add: j_def)
  have "x / 2 powi (expo x - 52) = of_int m * 2 powi j"
    by (simp add: x_def j_def power_int_diff)
  also have "\<dots> = of_int (m * 2 ^ nat j)"
    using j by (simp add: power_int_def)
  finally have "rne (x / 2 powi (expo x - 52)) = m * 2 ^ nat j" by (simp only: rne_of_int)
  then have "fl x = of_int (m * 2 ^ nat j) * 2 powi (expo x - 52)" using x by (simp add: fl_def)
  also have "\<dots> = of_int m * (2 powi j * 2 powi (expo x - 52))"
    using j by (simp add: power_int_def)
  also have "\<dots> = of_int m * 2 powi k" by (simp add: j_def flip: power_int_add)
  finally show ?thesis by (simp add: x_def)
qed

lemma fl_half_double:
  assumes "0 < x"
  shows "x / 2 < fl x \<and> fl x \<le> 2 * x"
proof -
  have "x \<noteq> 0" using assms by simp
  from expo_bounds[OF this] assms
  have b: "2 powi expo x \<le> x" "x < 2 * 2 powi expo x" by (simp_all add: power_int_add)
  from fl_range[OF assms]
  have r: "2 powi expo x \<le> fl x" "fl x \<le> 2 * 2 powi expo x" by (simp_all add: power_int_add)
  from b r show ?thesis by linarith
qed

lemma fl_bounds:
  assumes "lo \<le> x" and "x \<le> hi" and "0 < lo"
  shows "lo / 2 \<le> fl x \<and> fl x \<le> 2 * hi"
proof -
  have "0 < x" using assms by linarith
  from fl_half_double[OF this] assms show ?thesis by linarith
qed

text \<open>Evaluating \<open>fl\<close> at a given rational, once its exponent is known.\<close>

lemma fl_eval:
  assumes "2 powi e \<le> \<bar>x\<bar>" and "\<bar>x\<bar> < 2 powi (e + 1)"
  shows "fl x = of_int (rne (x / 2 powi (e - 52))) * 2 powi (e - 52)"
proof -
  have "(0::rat) < 2 powi e" by simp
  with assms(1) have "0 < \<bar>x\<bar>" by linarith
  then have "x \<noteq> 0" by simp
  then show ?thesis using expo_unique[OF assms] by (simp add: fl_def)
qed

lemma floor_rat_numeral_divide: "\<lfloor>(numeral a :: rat) / numeral b\<rfloor> = numeral a div numeral b"
  by (metis floor_divide_of_int_eq of_int_numeral)

lemma fl_of_int: "\<bar>m\<bar> < 2 ^ 53 \<Longrightarrow> fl (of_int m) = of_int m"
  using fl_exact[of m 0] by simp

section \<open>Facts about the cost computation\<close>

lemma int_truediv_nonneg: "0 \<le> a \<Longrightarrow> 0 \<le> b \<Longrightarrow> 0 \<le> int_truediv a b"
  by (simp add: int_truediv_def fl_nonneg)

lemma int_truediv_mono: "0 \<le> a \<Longrightarrow> a \<le> a' \<Longrightarrow> 0 \<le> b \<Longrightarrow> int_truediv a b \<le> int_truediv a' b"
  by (simp add: int_truediv_def fl_mono divide_right_mono)

lemma float_of_int_nonneg: "0 \<le> n \<Longrightarrow> 0 \<le> float_of_int n"
  by (simp add: float_of_int_def fl_nonneg)

lemma float_truediv_nonneg: "0 \<le> x \<Longrightarrow> 0 \<le> y \<Longrightarrow> 0 \<le> float_truediv x y"
  by (simp add: float_truediv_def fl_nonneg)

lemma float_truediv_mono:
  "0 \<le> x \<Longrightarrow> x \<le> x' \<Longrightarrow> 0 \<le> y \<Longrightarrow> float_truediv x y \<le> float_truediv x' y"
  by (simp add: float_truediv_def fl_mono divide_right_mono)

lemma float_mul_nonneg: "0 \<le> x \<Longrightarrow> 0 \<le> y \<Longrightarrow> 0 \<le> float_mul x y"
  by (simp add: float_mul_def fl_nonneg)

lemma float_mul_mono:
  "0 \<le> x \<Longrightarrow> x \<le> x' \<Longrightarrow> 0 \<le> y \<Longrightarrow> float_mul x y \<le> float_mul x' y"
  by (simp add: float_mul_def fl_mono mult_right_mono)

lemma float_add_nonneg: "0 \<le> x \<Longrightarrow> 0 \<le> y \<Longrightarrow> 0 \<le> float_add x y"
  by (simp add: float_add_def fl_nonneg)

lemma float_add_mono:
  "0 \<le> x \<Longrightarrow> x \<le> x' \<Longrightarrow> 0 \<le> y \<Longrightarrow> y \<le> y' \<Longrightarrow> float_add x y \<le> float_add x' y'"
  by (simp add: float_add_def fl_mono add_mono)

lemma cost_estimator_fields:
  "cost_input (cost_estimator txt) = input_cost_of (int (length txt))"
  "cost_output (cost_estimator txt) = output_cost_of (int (length (py_split txt)))"
  "cost_total (cost_estimator txt) =
     float_add (input_cost_of (int (length txt))) (output_cost_of (int (length (py_split txt))))"
  by (simp_all add: cost_estimator_def input_cost_of_def output_cost_of_def Let_def)

lemma input_cost_of_nonneg: "0 \<le> n \<Longrightarrow> 0 \<le> input_cost_of n"
  unfolding input_cost_of_def INPUT_TOKEN_CHARS_def INPUT_COST_PER_MILLION_def
  by (intro float_mul_nonneg float_truediv_nonneg int_truediv_nonneg float_of_int_nonneg) simp_all

lemma output_cost_of_nonneg: "0 \<le> n \<Longrightarrow> 0 \<le> output_cost_of n"
  unfolding output_cost_of_def WORDS_PER_SECOND_def OUTPUT_TOKENS_PER_SECOND_def
    OUTPUT_COST_PER_MILLION_def
  by (intro float_mul_nonneg float_truediv_nonneg int_truediv_nonneg float_of_int_nonneg) simp_all

lemma input_cost_of_mono:
  assumes "0 \<le> m" and "m \<le> n"
  shows "input_cost_of m \<le> input_cost_of n"
proof -
  have a: "int_truediv m 4 \<le> int_truediv n 4" using assms by (intro int_truediv_mono) simp_all
  have a0: "0 \<le> int_truediv m 4" using assms by (intro int_truediv_nonneg) simp_all
  have b: "float_truediv (int_truediv m 4) (float_of_int 1000000)
           \<le> float_truediv (int_truediv n 4) (float_of_int 1000000)"
    using a a0 by (intro float_truediv_mono float_of_int_nonneg) simp_all
  have b0: "0 \<le> float_truediv (int_truediv m 4) (float_of_int 1000000)"
    using a0 by (intro float_truediv_nonneg float_of_int_nonneg) simp_all
  show ?thesis
    unfolding input_cost_of_def INPUT_TOKEN_CHARS_def INPUT_COST_PER_MILLION_def
    using b b0 by (intro float_mul_mono) simp_all
qed

lemma output_cost_of_mono:
  assumes "0 \<le> m" and "m \<le> n"
  shows "output_cost_of m \<le> output_cost_of n"
proof -
  have a: "int_truediv m 2 \<le> int_truediv n 2" using assms by (intro int_truediv_mono) simp_all
  have a0: "0 \<le> int_truediv m 2" using assms by (intro int_truediv_nonneg) simp_all
  have b: "float_mul (int_truediv m 2) (float_of_int 32) \<le> float_mul (int_truediv n 2) (float_of_int 32)"
    using a a0 by (intro float_mul_mono float_of_int_nonneg) simp_all
  have b0: "0 \<le> float_mul (int_truediv m 2) (float_of_int 32)"
    using a0 by (intro float_mul_nonneg float_of_int_nonneg) simp_all
  have c: "float_truediv (float_mul (int_truediv m 2) (float_of_int 32)) (float_of_int 1000000)
           \<le> float_truediv (float_mul (int_truediv n 2) (float_of_int 32)) (float_of_int 1000000)"
    using b b0 by (intro float_truediv_mono float_of_int_nonneg) simp_all
  have c0: "0 \<le> float_truediv (float_mul (int_truediv m 2) (float_of_int 32)) (float_of_int 1000000)"
    using b0 by (intro float_truediv_nonneg float_of_int_nonneg) simp_all
  show ?thesis
    unfolding output_cost_of_def WORDS_PER_SECOND_def OUTPUT_TOKENS_PER_SECOND_def
      OUTPUT_COST_PER_MILLION_def
    using c c0 by (intro float_mul_mono float_of_int_nonneg) simp_all
qed

lemma py_join_empty_sep: "py_join [] parts = concat parts"
proof (induction parts)
  case Nil
  show ?case by simp
next
  case (Cons x xs)
  then show ?case by (cases xs) simp_all
qed

lemma hello_world_counts:
  "length (text_of ''hello world'') = 11"
  "py_split (text_of ''hello world'') = [text_of ''hello'', text_of ''world'']"
  by (simp_all add: py_split.simps text_of_def isspace_def)

lemma float_constants:
  "float_of_int 1000000 = 1000000" "float_of_int 32 = 32" "float_of_int 10 = 10"
  "int_truediv 11 4 = 11 / 4" "int_truediv 2 2 = 1" "float_mul 1 32 = 32"
proof -
  show "float_of_int 1000000 = 1000000" "float_of_int 32 = 32" "float_of_int 10 = 10"
    using fl_of_int[of 1000000] fl_of_int[of 32] fl_of_int[of 10]
    by (simp_all add: float_of_int_def)
  show "int_truediv 11 4 = 11 / 4"
    using fl_exact[of 11 "-2"] by (simp add: int_truediv_def power_int_minus)
  show "int_truediv 2 2 = 1"
    using fl_of_int[of 1] by (simp add: int_truediv_def)
  show "float_mul 1 32 = 32"
    using fl_of_int[of 32] by (simp add: float_mul_def)
qed

lemma input_cost_of_unfold:
  "input_cost_of n = fl (fl (fl (of_int n / 4) / 1000000) * (1 / 2))"
  by (simp add: input_cost_of_def float_mul_def float_truediv_def int_truediv_def float_constants
      INPUT_TOKEN_CHARS_def INPUT_COST_PER_MILLION_def)

lemma output_cost_of_unfold:
  "output_cost_of w = fl (fl (fl (fl (of_int w / 2) * 32) / 1000000) * 10)"
  by (simp add: output_cost_of_def float_mul_def float_truediv_def int_truediv_def float_constants
      WORDS_PER_SECOND_def OUTPUT_TOKENS_PER_SECOND_def OUTPUT_COST_PER_MILLION_def)

lemma of_int_bounds:
  assumes "0 < n" and "n < 2 ^ 63"
  shows "1 \<le> rat_of_int n \<and> rat_of_int n \<le> 2 ^ 63"
proof -
  have "rat_of_int 1 \<le> rat_of_int n" "rat_of_int n \<le> rat_of_int (2 ^ 63)"
    using assms by simp_all
  then show ?thesis by simp
qed

lemma input_values_moderate:
  assumes "0 \<le> n" and "n < 2 ^ 63"
  shows "moderate (of_int n / 4) \<and> moderate (fl (of_int n / 4) / 1000000) \<and>
         moderate (fl (fl (of_int n / 4) / 1000000) * (1 / 2)) \<and>
         (input_cost_of n = 0 \<or> 1 / 64000000 \<le> input_cost_of n \<and> input_cost_of n \<le> 2 ^ 44)"
proof (cases "n = 0")
  case True
  then show ?thesis by (simp add: moderate_def fl_zero input_cost_of_unfold)
next
  case False
  with assms have "0 < n" by simp
  from of_int_bounds[OF this assms(2)]
  have a1: "1 / 4 \<le> rat_of_int n / 4" "rat_of_int n / 4 \<le> 2 ^ 61" by simp_all
  from fl_bounds[OF a1] have f1: "1 / 8 \<le> fl (of_int n / 4)" "fl (of_int n / 4) \<le> 2 ^ 62" by simp_all
  then have a2: "1 / 8000000 \<le> fl (of_int n / 4) / 1000000" "fl (of_int n / 4) / 1000000 \<le> 2 ^ 43"
    by simp_all
  from fl_bounds[OF a2] have f2: "1 / 16000000 \<le> fl (fl (of_int n / 4) / 1000000)"
    "fl (fl (of_int n / 4) / 1000000) \<le> 2 ^ 44" by simp_all
  then have a3: "1 / 32000000 \<le> fl (fl (of_int n / 4) / 1000000) * (1 / 2)"
    "fl (fl (of_int n / 4) / 1000000) * (1 / 2) \<le> 2 ^ 43" by simp_all
  from fl_bounds[OF a3] have f3: "1 / 64000000 \<le> input_cost_of n" "input_cost_of n \<le> 2 ^ 44"
    by (simp_all add: input_cost_of_unfold)
  show ?thesis using a1 a2 a3 f3 by (simp add: moderate_def)
qed

lemma output_values_moderate:
  assumes "0 \<le> w" and "w < 2 ^ 63"
  shows "moderate (of_int w / 2) \<and> moderate (fl (of_int w / 2) * 32) \<and>
         moderate (fl (fl (of_int w / 2) * 32) / 1000000) \<and>
         moderate (fl (fl (fl (of_int w / 2) * 32) / 1000000) * 10) \<and>
         (output_cost_of w = 0 \<or> 1 / 1600000 \<le> output_cost_of w \<and> output_cost_of w \<le> 2 ^ 58)"
proof (cases "w = 0")
  case True
  then show ?thesis by (simp add: moderate_def fl_zero output_cost_of_unfold)
next
  case False
  with assms have "0 < w" by simp
  from of_int_bounds[OF this assms(2)]
  have a1: "1 / 2 \<le> rat_of_int w / 2" "rat_of_int w / 2 \<le> 2 ^ 62" by simp_all
  from fl_bounds[OF a1] have f1: "1 / 4 \<le> fl (of_int w / 2)" "fl (of_int w / 2) \<le> 2 ^ 63" by simp_all
  then have a2: "8 \<le> fl (of_int w / 2) * 32" "fl (of_int w / 2) * 32 \<le> 2 ^ 68" by simp_all
  from fl_bounds[OF a2] have f2: "4 \<le> fl (fl (of_int w / 2) * 32)"
    "fl (fl (of_int w / 2) * 32) \<le> 2 ^ 69" by simp_all
  then have a3: "1 / 250000 \<le> fl (fl (of_int w / 2) * 32) / 1000000"
    "fl (fl (of_int w / 2) * 32) / 1000000 \<le> 2 ^ 50" by simp_all
  from fl_bounds[OF a3] have f3: "1 / 500000 \<le> fl (fl (fl (of_int w / 2) * 32) / 1000000)"
    "fl (fl (fl (of_int w / 2) * 32) / 1000000) \<le> 2 ^ 51" by simp_all
  then have a4: "1 / 50000 \<le> fl (fl (fl (of_int w / 2) * 32) / 1000000) * 10"
    "fl (fl (fl (of_int w / 2) * 32) / 1000000) * 10 \<le> 2 ^ 55" by simp_all
  from fl_bounds[OF a4] have f4: "1 / 100000 \<le> output_cost_of w" "output_cost_of w \<le> 2 ^ 56"
    by (simp_all add: output_cost_of_unfold)
  show ?thesis using a1 a2 a3 a4 f4 by (simp add: moderate_def)
qed

lemma length_py_split_le: "length (py_split s) \<le> length s"
proof (induction s rule: py_split.induct)
  case (1 s)
  define t where "t = dropWhile isspace s"
  show ?case
  proof (cases "t = []")
    case True
    then show ?thesis by (subst py_split.simps) (simp add: t_def)
  next
    case False
    then obtain c cs where c: "t = c # cs" by (cases t) auto
    have "\<not> isspace c" using c t_def by (metis hd_dropWhile list.sel(1) list.distinct(1))
    then have "length (dropWhile (\<lambda>c. \<not> isspace c) t) \<le> length cs"
      using c by (simp add: length_dropWhile_le)
    moreover have "length t \<le> length s" by (simp add: t_def length_dropWhile_le)
    moreover have "length (py_split (dropWhile (\<lambda>c. \<not> isspace c) t))
        \<le> length (dropWhile (\<lambda>c. \<not> isspace c) t)"
      using "1.IH"[OF t_def False] .
    ultimately have "Suc (length (py_split (dropWhile (\<lambda>c. \<not> isspace c) t))) \<le> length s"
      using c by simp
    then show ?thesis using False by (subst py_split.simps) (simp add: t_def Let_def)
  qed
qed

lemma cost_values_moderate:
  assumes "length txt < 2 ^ 63"
  defines "n \<equiv> int (length txt)" and "w \<equiv> int (length (py_split txt))"
  shows "moderate (of_int n / 4) \<and> moderate (fl (of_int n / 4) / 1000000) \<and>
         moderate (fl (fl (of_int n / 4) / 1000000) * (1 / 2)) \<and>
         moderate (of_int w / 2) \<and> moderate (fl (of_int w / 2) * 32) \<and>
         moderate (fl (fl (of_int w / 2) * 32) / 1000000) \<and>
         moderate (fl (fl (fl (of_int w / 2) * 32) / 1000000) * 10) \<and>
         moderate (input_cost_of n + output_cost_of w)"
proof -
  have n: "0 \<le> n" "n < 2 ^ 63" using assms(1) by (simp_all add: n_def)
  have "length (py_split txt) \<le> length txt" by (rule length_py_split_le)
  then have w: "0 \<le> w" "w < 2 ^ 63" using assms(1) by (simp_all add: w_def)
  note i = input_values_moderate[OF n] and o = output_values_moderate[OF w]
  have i0: "0 \<le> input_cost_of n" using n(1) by (rule input_cost_of_nonneg)
  have o0: "0 \<le> output_cost_of w" using w(1) by (rule output_cost_of_nonneg)
  have "moderate (input_cost_of n + output_cost_of w)"
  proof (cases "input_cost_of n = 0 \<and> output_cost_of w = 0")
    case True
    then show ?thesis by (simp add: moderate_def)
  next
    case False
    have iu: "input_cost_of n \<le> 2 ^ 44" and ou: "output_cost_of w \<le> 2 ^ 58"
      using i o by auto
    have il: "input_cost_of n = 0 \<or> 1 / 64000000 \<le> input_cost_of n"
      and ol: "output_cost_of w = 0 \<or> 1 / 64000000 \<le> output_cost_of w"
      using i o by auto
    have "1 / 64000000 \<le> input_cost_of n + output_cost_of w"
      using False il ol i0 o0 by linarith
    moreover have "input_cost_of n + output_cost_of w \<le> 2 ^ 80" using iu ou by simp
    moreover have "(1::rat) / 2 ^ 40 \<le> 1 / 64000000" by simp
    ultimately show ?thesis by (simp add: moderate_def)
  qed
  with i o show ?thesis by simp
qed

section \<open>Claims about the chunker\<close>

text \<open>
  C7: for any \<open>max_tokens\<close> and \<open>token_chars\<close>, \<open>split_text_to_chunks\<close> applied to the
  empty string returns the empty list.
\<close>

theorem split_empty: "split_text_to_chunks [] max_tokens token_chars = Some []"
  by (simp add: split_text_to_chunks_def split_loop.simps)

text \<open>
  C2: for \<open>max_tokens > 0\<close> and \<open>token_chars > 0\<close> the call returns, and every chunk
  it returns is a body followed by the two-newline marker, where the body has no
  trailing whitespace left to strip and is at most \<open>max_tokens * token_chars\<close>
  characters long.
\<close>

theorem chunk_body_bounded:
  assumes "0 < max_tokens" and "0 < token_chars"
  shows "\<exists>chunks. split_text_to_chunks txt max_tokens token_chars = Some chunks \<and>
           (\<forall>c \<in> set chunks. \<exists>b. c = b @ marker \<and> rstrip b = b \<and>
              int (length b) \<le> max_tokens * token_chars)"
proof -
  let ?n = "nat (max_tokens * token_chars)"
  have pos: "1 \<le> max_tokens * token_chars" using assms by (rule pos_product)
  have "\<exists>b. c = b @ marker \<and> rstrip b = b \<and> int (length b) \<le> max_tokens * token_chars"
    if "c \<in> set (chunks_from ?n txt)" for c
  proof -
    from chunks_from_shape[OF that] obtain b
      where b: "c = b @ marker" "rstrip b = b" "length b \<le> ?n" by blast
    from b(3) pos have "int (length b) \<le> max_tokens * token_chars" by linarith
    with b show ?thesis by blast
  qed
  then show ?thesis using split_text_to_chunks_eq[OF pos] by blast
qed

theorem chunk_body_bounded_witness:
  "(0::int) < 1 \<and> (0::int) < 3 \<and>
   split_text_to_chunks (text_of ''ab  cd e'') 1 3 =
     Some [text_of ''ab'' @ marker, text_of '' cd'' @ marker, text_of '' e'' @ marker] \<and>
   (\<exists>b. text_of ''ab'' @ marker = b @ marker \<and> rstrip b = b \<and> int (length b) \<le> 1 * 3)"
proof -
  have run: "split_text_to_chunks (text_of ''ab  cd e'') 1 3 =
     Some [text_of ''ab'' @ marker, text_of '' cd'' @ marker, text_of '' e'' @ marker]"
    by (simp add: eval_defs)
  from chunk_body_bounded[of 1 3 "text_of ''ab  cd e''"] obtain chunks
    where "split_text_to_chunks (text_of ''ab  cd e'') 1 3 = Some chunks"
      and "\<forall>c \<in> set chunks. \<exists>b. c = b @ marker \<and> rstrip b = b \<and> int (length b) \<le> 1 * 3"
    by auto
  with run have "\<exists>b. text_of ''ab'' @ marker = b @ marker \<and> rstrip b = b \<and> int (length b) \<le> 1 * 3"
    by simp
  with run show ?thesis by simp
qed

text \<open>
  C3, as stated, fails: the chunk as returned carries the two-newline marker, so a
  slice that fills the width gives a chunk two characters over it. Here the width is
  \<open>1 * 2\<close> and the only chunk has four characters.
\<close>

theorem chunk_length_counterexample:
  "split_text_to_chunks (text_of ''ab'') 1 2 = Some [text_of ''ab'' @ marker] \<and>
   (1::int) * 2 < int (length (text_of ''ab'' @ marker))"
  by (simp add: eval_defs)

text \<open>
  C3, amended: for \<open>max_tokens > 0\<close> and \<open>token_chars > 0\<close> the call returns, and every
  chunk as returned (marker included) has at most \<open>max_tokens * token_chars + 2\<close>
  characters.
\<close>

theorem chunk_length_bounded:
  assumes "0 < max_tokens" and "0 < token_chars"
  shows "\<exists>chunks. split_text_to_chunks txt max_tokens token_chars = Some chunks \<and>
           (\<forall>c \<in> set chunks. int (length c) \<le> max_tokens * token_chars + 2)"
proof -
  let ?n = "nat (max_tokens * token_chars)"
  have pos: "1 \<le> max_tokens * token_chars" using assms by (rule pos_product)
  have "int (length c) \<le> max_tokens * token_chars + 2" if "c \<in> set (chunks_from ?n txt)" for c
  proof -
    from chunks_from_shape[OF that] obtain b
      where b: "c = b @ marker" "length b \<le> ?n" by blast
    have "length c = length b + 2" using b(1) by (simp add: marker_def)
    with b(2) pos show ?thesis by linarith
  qed
  then show ?thesis using split_text_to_chunks_eq[OF pos] by blast
qed

theorem chunk_length_bounded_witness:
  "(0::int) < 1 \<and> (0::int) < 2 \<and>
   split_text_to_chunks (text_of ''abc'') 1 2 = Some [text_of ''ab'' @ marker, text_of ''c'' @ marker] \<and>
   int (length (text_of ''ab'' @ marker)) \<le> 1 * 2 + 2 \<and>
   int (length (text_of ''c'' @ marker)) \<le> 1 * 2 + 2"
proof -
  have run: "split_text_to_chunks (text_of ''abc'') 1 2 =
     Some [text_of ''ab'' @ marker, text_of ''c'' @ marker]"
    by (simp add: eval_defs)
  from chunk_length_bounded[of 1 2 "text_of ''abc''"] obtain chunks
    where "split_text_to_chunks (text_of ''abc'') 1 2 = Some chunks"
      and "\<forall>c \<in> set chunks. int (length c) \<le> 1 * 2 + 2"
    by auto
  with run have "int (length (text_of ''ab'' @ marker)) \<le> 1 * 2 + 2"
    and "int (length (text_of ''c'' @ marker)) \<le> 1 * 2 + 2"
    by simp_all
  with run show ?thesis by simp
qed

text \<open>
  C1, as stated, fails for the usual whitespace normal form: a chunk boundary inside a
  word puts the marker into the word, and normalizing turns it into a space. With a
  width of \<open>1 * 2\<close> the text \<open>abcd\<close> comes back as \<open>ab cd\<close>.
\<close>

theorem roundtrip_counterexample:
  "split_text_to_chunks (text_of ''abcd'') 1 2 = Some [text_of ''ab'' @ marker, text_of ''cd'' @ marker] \<and>
   ws_normalize (concat [text_of ''ab'' @ marker, text_of ''cd'' @ marker]) = text_of ''ab cd'' \<and>
   ws_normalize (text_of ''abcd'') = text_of ''abcd'' \<and>
   text_of ''ab cd'' \<noteq> text_of ''abcd''"
  by (simp add: eval_defs ws_normalize_def py_split.simps)

text \<open>
  C1, amended: for \<open>max_tokens > 0\<close> and \<open>token_chars > 0\<close> the call returns, and the
  chunks concatenated in order have the same whitespace normal form as the text with
  the marker put after each consecutive slice of \<open>max_tokens * token_chars\<close>
  characters. Stripping and re-joining loses nothing but whitespace; what the round
  trip adds is a word break at every cut.
\<close>

theorem roundtrip_ws_normalize:
  assumes "0 < max_tokens" and "0 < token_chars"
  shows "\<exists>chunks. split_text_to_chunks txt max_tokens token_chars = Some chunks \<and>
           ws_normalize (concat chunks) =
             ws_normalize (with_markers (nat (max_tokens * token_chars)) txt)"
proof -
  have pos: "1 \<le> max_tokens * token_chars" using assms by (rule pos_product)
  then have "0 < nat (max_tokens * token_chars)" by simp
  then have "py_split (concat (chunks_from (nat (max_tokens * token_chars)) txt)) =
      py_split (with_markers (nat (max_tokens * token_chars)) txt)"
    by (rule chunks_from_words)
  then show ?thesis using split_text_to_chunks_eq[OF pos] by (simp add: ws_normalize_def)
qed

theorem roundtrip_ws_normalize_witness:
  "(0::int) < 1 \<and> (0::int) < 3 \<and>
   split_text_to_chunks (text_of ''ab  cd e'') 1 3 =
     Some [text_of ''ab'' @ marker, text_of '' cd'' @ marker, text_of '' e'' @ marker] \<and>
   with_markers (nat (1 * 3)) (text_of ''ab  cd e'') =
     text_of ''ab '' @ marker @ text_of '' cd'' @ marker @ text_of '' e'' @ marker \<and>
   ws_normalize (concat [text_of ''ab'' @ marker, text_of '' cd'' @ marker, text_of '' e'' @ marker]) =
     ws_normalize (with_markers (nat (1 * 3)) (text_of ''ab  cd e''))"
proof -
  have run: "split_text_to_chunks (text_of ''ab  cd e'') 1 3 =
     Some [text_of ''ab'' @ marker, text_of '' cd'' @ marker, text_of '' e'' @ marker]"
    by (simp add: eval_defs)
  have marked: "with_markers (nat (1 * 3)) (text_of ''ab  cd e'') =
     text_of ''ab '' @ marker @ text_of '' cd'' @ marker @ text_of '' e'' @ marker"
    by (simp add: with_markers.simps text_of_def)
  from roundtrip_ws_normalize[of 1 3 "text_of ''ab  cd e''"] obtain chunks
    where "split_text_to_chunks (text_of ''ab  cd e'') 1 3 = Some chunks"
      and "ws_normalize (concat chunks) =
             ws_normalize (with_markers (nat (1 * 3)) (text_of ''ab  cd e''))"
    by auto
  with run have "ws_normalize (concat [text_of ''ab'' @ marker, text_of '' cd'' @ marker, text_of '' e'' @ marker]) =
     ws_normalize (with_markers (nat (1 * 3)) (text_of ''ab  cd e''))"
    by simp
  with run marked show ?thesis by (intro conjI) simp_all
qed

text \<open>
  C8: 30000 letters \<open>a\<close> with \<open>max_tokens = 7000\<close> and \<open>token_chars = 4\<close> give exactly two
  chunks: the first holds 28000 letters (the limit \<open>7000 * 4\<close>), the second the
  remaining 2000, each followed by the marker.
\<close>

theorem split_30000:
  "split_text_to_chunks (replicate 30000 (of_char CHR ''a'')) 7000 4 =
     Some [replicate 28000 (of_char CHR ''a'') @ marker, replicate 2000 (of_char CHR ''a'') @ marker] \<and>
   length (the (split_text_to_chunks (replicate 30000 (of_char CHR ''a'')) 7000 4)) = 2 \<and>
   (7000::int) * 4 = 28000"
proof -
  have a: "\<not> isspace 97" by (simp add: isspace_def)
  have "chunks_from 28000 (replicate 30000 (of_char CHR ''a'')) =
     [replicate 28000 (of_char CHR ''a'') @ marker, replicate 2000 (of_char CHR ''a'') @ marker]"
    by (simp add: chunks_from.simps rstrip_replicate a)
  moreover have "split_text_to_chunks (replicate 30000 (of_char CHR ''a'')) 7000 4 =
     Some (chunks_from (nat (7000 * 4)) (replicate 30000 (of_char CHR ''a'')))"
    by (rule split_text_to_chunks_eq) simp
  ultimately show ?thesis by simp
qed

text \<open>
  C9: when \<open>max_tokens * token_chars \<ge> 1\<close> every pass of the loop moves \<open>start\<close> forward
  by at least one character, and the call returns after at most \<open>len(text)\<close> passes
  (one chunk per pass); when \<open>max_tokens * token_chars \<le> 0\<close> and the text is not
  empty, the call never returns.
\<close>

theorem split_terminates:
  "(1 \<le> max_chars \<and> start < int (length txt) \<longrightarrow> start + 1 \<le> chunk_end txt max_chars start) \<and>
   (1 \<le> max_tokens * token_chars \<longrightarrow>
      (\<exists>chunks. split_text_to_chunks txt max_tokens token_chars = Some chunks \<and>
         length chunks \<le> length txt)) \<and>
   (max_tokens * token_chars \<le> 0 \<and> txt \<noteq> [] \<longrightarrow>
      split_text_to_chunks txt max_tokens token_chars = None)"
proof (intro conjI impI)
  assume "1 \<le> max_chars \<and> start < int (length txt)"
  then show "start + 1 \<le> chunk_end txt max_chars start" by (auto simp: chunk_end_def)
next
  assume pos: "1 \<le> max_tokens * token_chars"
  then have "0 < nat (max_tokens * token_chars)" by simp
  then have "length (chunks_from (nat (max_tokens * token_chars)) txt) \<le> length txt"
    by (rule chunks_from_length)
  then show "\<exists>chunks. split_text_to_chunks txt max_tokens token_chars = Some chunks \<and>
         length chunks \<le> length txt"
    using split_text_to_chunks_eq[OF pos] by blast
next
  assume "max_tokens * token_chars \<le> 0 \<and> txt \<noteq> []"
  then show "split_text_to_chunks txt max_tokens token_chars = None"
    by (simp add: split_text_to_chunks_def split_loop_None)
qed

theorem split_terminates_witness:
  "(1::int) \<le> 2 \<and> (0::int) < int (length (text_of ''abc'')) \<and>
   (0::int) + 1 \<le> chunk_end (text_of ''abc'') 2 0 \<and>
   (1::int) \<le> 1 * 2 \<and>
   split_text_to_chunks (text_of ''abc'') 1 2 = Some [text_of ''ab'' @ marker, text_of ''c'' @ marker] \<and>
   length [text_of ''ab'' @ marker, text_of ''c'' @ marker] \<le> length (text_of ''abc'') \<and>
   (0::int) * 4 \<le> 0 \<and> text_of ''abc'' \<noteq> [] \<and>
   split_text_to_chunks (text_of ''abc'') 0 4 = None"
proof -
  have run: "split_text_to_chunks (text_of ''abc'') 1 2 =
     Some [text_of ''ab'' @ marker, text_of ''c'' @ marker]"
    by (simp add: eval_defs)
  have ne: "text_of ''abc'' \<noteq> []" by (simp add: text_of_def)
  have "split_text_to_chunks (text_of ''abc'') 0 4 = None"
    using split_terminates[of 2 0 "text_of ''abc''" 0 4] ne by simp
  moreover have "(0::int) + 1 \<le> chunk_end (text_of ''abc'') 2 0"
    using split_terminates[of 2 0 "text_of ''abc''" 1 2] by (simp add: text_of_def)
  ultimately show ?thesis using run by (simp add: text_of_def)
qed

section \<open>Claims about the cost estimator\<close>

text \<open>
  C4: in Python's float arithmetic, the \<open>input\<close> field is
  \<open>(len(text) / 4) / 1_000_000 * 0.5\<close>, the \<open>output\<close> field is
  \<open>((number of words / 2) * 32) / 1_000_000 * 10\<close>, and the \<open>total\<close> field is their
  sum; for \<open>"hello world"\<close> (11 characters, 2 words) these are \<open>2.75 / 1e6 * 0.5\<close>,
  \<open>32 / 1e6 * 10\<close> and the sum of the two.
\<close>

theorem cost_estimator_formula:
  "cost_input (cost_estimator txt) =
     float_mul (float_truediv (int_truediv (int (length txt)) 4) (float_of_int 1000000)) (1 / 2) \<and>
   cost_output (cost_estimator txt) =
     float_mul
       (float_truediv (float_mul (int_truediv (int (length (py_split txt))) 2) (float_of_int 32))
          (float_of_int 1000000))
       (float_of_int 10) \<and>
   cost_total (cost_estimator txt) =
     float_add (cost_input (cost_estimator txt)) (cost_output (cost_estimator txt)) \<and>
   cost_input (cost_estimator (text_of ''hello world'')) =
     float_mul (float_truediv (11 / 4) 1000000) (1 / 2) \<and>
   cost_output (cost_estimator (text_of ''hello world'')) =
     float_mul (float_truediv 32 1000000) 10 \<and>
   cost_total (cost_estimator (text_of ''hello world'')) =
     float_add (float_mul (float_truediv (11 / 4) 1000000) (1 / 2))
       (float_mul (float_truediv 32 1000000) 10)"
proof -
  have general:
    "cost_input (cost_estimator t) =
       float_mul (float_truediv (int_truediv (int (length t)) 4) (float_of_int 1000000)) (1 / 2)"
    "cost_output (cost_estimator t) =
       float_mul
         (float_truediv (float_mul (int_truediv (int (length (py_split t))) 2) (float_of_int 32))
            (float_of_int 1000000))
         (float_of_int 10)"
    "cost_total (cost_estimator t) =
       float_add (cost_input (cost_estimator t)) (cost_output (cost_estimator t))" for t
    by (simp_all add: cost_estimator_def Let_def INPUT_TOKEN_CHARS_def INPUT_COST_PER_MILLION_def
        OUTPUT_TOKENS_PER_SECOND_def WORDS_PER_SECOND_def OUTPUT_COST_PER_MILLION_def)
  have hello_in: "cost_input (cost_estimator (text_of ''hello world'')) =
      float_mul (float_truediv (11 / 4) 1000000) (1 / 2)"
    by (simp only: general(1) hello_world_counts) (simp add: float_constants)
  have hello_out: "cost_output (cost_estimator (text_of ''hello world'')) =
      float_mul (float_truediv 32 1000000) 10"
    by (simp only: general(2) hello_world_counts) (simp add: float_constants)
  have hello_total: "cost_total (cost_estimator (text_of ''hello world'')) =
      float_add (float_mul (float_truediv (11 / 4) 1000000) (1 / 2))
        (float_mul (float_truediv 32 1000000) 10)"
    by (simp only: general(3) hello_in hello_out)
  show ?thesis
    using general[of "txt"] hello_in hello_out hello_total by (intro conjI)
qed

text \<open>
  C5: a text that is no longer and has no more words than another costs no more, in
  each of the three fields.
\<close>

theorem cost_estimator_monotone:
  assumes "length t1 \<le> length t2" and "length (py_split t1) \<le> length (py_split t2)"
  shows "cost_input (cost_estimator t1) \<le> cost_input (cost_estimator t2) \<and>
         cost_output (cost_estimator t1) \<le> cost_output (cost_estimator t2) \<and>
         cost_total (cost_estimator t1) \<le> cost_total (cost_estimator t2)"
proof -
  have i: "input_cost_of (int (length t1)) \<le> input_cost_of (int (length t2))"
    using assms(1) by (intro input_cost_of_mono) simp_all
  have o: "output_cost_of (int (length (py_split t1))) \<le> output_cost_of (int (length (py_split t2)))"
    using assms(2) by (intro output_cost_of_mono) simp_all
  have "float_add (input_cost_of (int (length t1))) (output_cost_of (int (length (py_split t1))))
        \<le> float_add (input_cost_of (int (length t2))) (output_cost_of (int (length (py_split t2))))"
    using i o by (intro float_add_mono input_cost_of_nonneg output_cost_of_nonneg) simp_all
  with i o show ?thesis by (simp only: cost_estimator_fields)
qed

theorem cost_estimator_monotone_witness:
  "length (text_of ''hi'') \<le> length (text_of ''hi there'') \<and>
   length (py_split (text_of ''hi'')) \<le> length (py_split (text_of ''hi there'')) \<and>
   cost_input (cost_estimator (text_of ''hi'')) \<le> cost_input (cost_estimator (text_of ''hi there'')) \<and>
   cost_output (cost_estimator (text_of ''hi'')) \<le> cost_output (cost_estimator (text_of ''hi there'')) \<and>
   cost_total (cost_estimator (text_of ''hi'')) \<le> cost_total (cost_estimator (text_of ''hi there''))"
proof -
  have len: "length (text_of ''hi'') \<le> length (text_of ''hi there'')"
    by (simp add: text_of_def)
  have words: "length (py_split (text_of ''hi'')) \<le> length (py_split (text_of ''hi there''))"
    by (simp add: py_split.simps text_of_def isspace_def)
  from cost_estimator_monotone[OF len words] len words show ?thesis by (intro conjI) simp_all
qed

text \<open>C10: the three fields returned by \<open>cost_estimator\<close> are never negative.\<close>

theorem cost_estimator_nonneg:
  "0 \<le> cost_input (cost_estimator txt) \<and> 0 \<le> cost_output (cost_estimator txt) \<and>
   0 \<le> cost_total (cost_estimator txt)"
proof -
  have i: "0 \<le> input_cost_of (int (length txt))" by (rule input_cost_of_nonneg) simp
  have o: "0 \<le> output_cost_of (int (length (py_split txt)))" by (rule output_cost_of_nonneg) simp
  from i o have "0 \<le> float_add (input_cost_of (int (length txt))) (output_cost_of (int (length (py_split txt))))"
    by (rule float_add_nonneg)
  with i o show ?thesis by (simp only: cost_estimator_fields)
qed

section \<open>Claims about the audio assembler\<close>

text \<open>
  C6: for a list of buffers, the sample data that \<open>save_mp3_file\<close> passes on to be
  encoded is the concatenation of the buffers in order; and a single buffer \<open>b\<close> leads
  to the same call as the one-element list \<open>[b]\<close>.
\<close>

theorem save_mp3_file_concat:
  "seg_data (exp_audio (save_mp3_file filename (Buffers parts) channels rate sample_width)) =
     concat parts \<and>
   save_mp3_file filename (Buffer b) channels rate sample_width =
     save_mp3_file filename (Buffers [b]) channels rate sample_width"
  by (simp add: save_mp3_file_def py_join_empty_sep)

section \<open>Further properties\<close>

text \<open>
  When no cut falls inside a word, the round trip does reconstruct the text modulo
  whitespace: the chunks concatenated in order and the text have the same whitespace
  normal form.
\<close>

theorem roundtrip_no_cut_in_word:
  assumes "1 \<le> max_tokens * token_chars"
    and "cuts_at_space (nat (max_tokens * token_chars)) txt"
  shows "\<exists>chunks. split_text_to_chunks txt max_tokens token_chars = Some chunks \<and>
           ws_normalize (concat chunks) = ws_normalize txt"
proof -
  have n: "0 < nat (max_tokens * token_chars)" using assms(1) by simp
  have "py_split (concat (chunks_from (nat (max_tokens * token_chars)) txt)) =
      py_split (with_markers (nat (max_tokens * token_chars)) txt)"
    using n by (rule chunks_from_words)
  also have "\<dots> = py_split txt" using n assms(2) by (rule with_markers_words)
  finally show ?thesis using split_text_to_chunks_eq[OF assms(1)] by (simp add: ws_normalize_def)
qed

theorem roundtrip_no_cut_in_word_witness:
  "(1::int) \<le> 2 * 4 \<and> cuts_at_space (nat (2 * 4)) (text_of ''the cat sat on'') \<and>
   split_text_to_chunks (text_of ''the cat sat on'') 2 4 =
     Some [text_of ''the cat'' @ marker, text_of ''sat on'' @ marker] \<and>
   ws_normalize (concat [text_of ''the cat'' @ marker, text_of ''sat on'' @ marker]) =
     ws_normalize (text_of ''the cat sat on'')"
proof -
  have cuts: "cuts_at_space (nat (2 * 4)) (text_of ''the cat sat on'')"
    by (simp add: cuts_at_space.simps text_of_def isspace_def)
  have run: "split_text_to_chunks (text_of ''the cat sat on'') 2 4 =
     Some [text_of ''the cat'' @ marker, text_of ''sat on'' @ marker]"
    by (simp add: eval_defs)
  have "(1::int) \<le> 2 * 4" by simp
  from roundtrip_no_cut_in_word[OF this cuts] obtain chunks
    where "split_text_to_chunks (text_of ''the cat sat on'') 2 4 = Some chunks"
      and "ws_normalize (concat chunks) = ws_normalize (text_of ''the cat sat on'')"
    by auto
  with run have "ws_normalize (concat [text_of ''the cat'' @ marker, text_of ''sat on'' @ marker]) =
     ws_normalize (text_of ''the cat sat on'')"
    by simp
  with run cuts show ?thesis by (intro conjI) simp_all
qed

text \<open>
  Whatever the cuts, the chunks concatenated in order hold exactly the non-whitespace
  characters of the text, in the same order.
\<close>

theorem roundtrip_delete_ws:
  assumes "0 < max_tokens" and "0 < token_chars"
  shows "\<exists>chunks. split_text_to_chunks txt max_tokens token_chars = Some chunks \<and>
           delete_ws (concat chunks) = delete_ws txt"
proof -
  have pos: "1 \<le> max_tokens * token_chars" using assms by (rule pos_product)
  then have "0 < nat (max_tokens * token_chars)" by simp
  then have "delete_ws (concat (chunks_from (nat (max_tokens * token_chars)) txt)) = delete_ws txt"
    by (rule chunks_from_delete_ws)
  then show ?thesis using split_text_to_chunks_eq[OF pos] by blast
qed

theorem roundtrip_delete_ws_witness:
  "(0::int) < 1 \<and> (0::int) < 3 \<and>
   split_text_to_chunks (text_of ''ab  cd e'') 1 3 =
     Some [text_of ''ab'' @ marker, text_of '' cd'' @ marker, text_of '' e'' @ marker] \<and>
   delete_ws (concat [text_of ''ab'' @ marker, text_of '' cd'' @ marker, text_of '' e'' @ marker]) =
     delete_ws (text_of ''ab  cd e'')"
proof -
  have run: "split_text_to_chunks (text_of ''ab  cd e'') 1 3 =
     Some [text_of ''ab'' @ marker, text_of '' cd'' @ marker, text_of '' e'' @ marker]"
    by (simp add: eval_defs)
  from roundtrip_delete_ws[of 1 3 "text_of ''ab  cd e''"] obtain chunks
    where "split_text_to_chunks (text_of ''ab  cd e'') 1 3 = Some chunks"
      and "delete_ws (concat chunks) = delete_ws (text_of ''ab  cd e'')"
    by auto
  with run have "delete_ws (concat [text_of ''ab'' @ marker, text_of '' cd'' @ marker, text_of '' e'' @ marker]) =
     delete_ws (text_of ''ab  cd e'')"
    by simp
  with run show ?thesis by simp
qed

text \<open>
  Where the chunks come from: for a width \<open>n = max_tokens * token_chars \<ge> 1\<close> the call
  returns \<open>\<lceil>len(text) / n\<rceil>\<close> chunks, and chunk number \<open>k\<close> is the slice
  \<open>text[k * n : (k + 1) * n]\<close> with its trailing whitespace stripped and the marker
  appended; the chunks follow the order of the text and are cut by character count
  alone.
\<close>

theorem split_chunk_positions:
  assumes "1 \<le> max_tokens * token_chars"
  shows "\<exists>chunks. split_text_to_chunks txt max_tokens token_chars = Some chunks \<and>
           length chunks =
             (length txt + nat (max_tokens * token_chars) - 1) div nat (max_tokens * token_chars) \<and>
           (\<forall>k < length chunks.
              chunks ! k =
                rstrip (take (nat (max_tokens * token_chars))
                          (drop (k * nat (max_tokens * token_chars)) txt)) @ marker)"
proof -
  have n: "0 < nat (max_tokens * token_chars)" using assms by simp
  show ?thesis
    using split_text_to_chunks_eq[OF assms, of "txt"] chunks_from_count[OF n, of "txt"]
      chunks_from_nth[OF n, of _ "txt"]
    by simp
qed

theorem split_chunk_positions_witness:
  "(1::int) \<le> 1 * 3 \<and>
   split_text_to_chunks (text_of ''ab  cd e'') 1 3 =
     Some [text_of ''ab'' @ marker, text_of '' cd'' @ marker, text_of '' e'' @ marker] \<and>
   length [text_of ''ab'' @ marker, text_of '' cd'' @ marker, text_of '' e'' @ marker] =
     (length (text_of ''ab  cd e'') + nat (1 * 3) - 1) div nat (1 * 3) \<and>
   [text_of ''ab'' @ marker, text_of '' cd'' @ marker, text_of '' e'' @ marker] ! 1 =
     rstrip (take (nat (1 * 3)) (drop (1 * nat (1 * 3)) (text_of ''ab  cd e''))) @ marker"
proof -
  have run: "split_text_to_chunks (text_of ''ab  cd e'') 1 3 =
     Some [text_of ''ab'' @ marker, text_of '' cd'' @ marker, text_of '' e'' @ marker]"
    by (simp add: eval_defs)
  from split_chunk_positions[of 1 3 "text_of ''ab  cd e''"] obtain chunks
    where c: "split_text_to_chunks (text_of ''ab  cd e'') 1 3 = Some chunks"
      "length chunks = (length (text_of ''ab  cd e'') + nat (1 * 3) - 1) div nat (1 * 3)"
      "\<forall>k < length chunks. chunks ! k =
         rstrip (take (nat (1 * 3)) (drop (k * nat (1 * 3)) (text_of ''ab  cd e''))) @ marker"
    by auto
  from c(1) run have eq: "chunks = [text_of ''ab'' @ marker, text_of '' cd'' @ marker, text_of '' e'' @ marker]"
    by simp
  have "(1::nat) < length chunks" by (simp add: eq)
  with c(3) have "chunks ! 1 =
      rstrip (take (nat (1 * 3)) (drop (1 * nat (1 * 3)) (text_of ''ab  cd e''))) @ marker"
    by blast
  with c(2) run show ?thesis unfolding eq by (intro conjI) simp_all
qed

text \<open>The empty text costs nothing.\<close>

theorem cost_estimator_empty:
  "cost_estimator [] = \<lparr>cost_input = 0, cost_output = 0, cost_total = 0\<rparr>"
  by (simp add: cost_estimator_def Let_def py_split_Nil int_truediv_def float_truediv_def
      float_mul_def float_add_def fl_zero)

text \<open>
  The three numbers \<open>cost_estimator("hello world")\<close> returns, as exact fractions; as
  decimals they are about \<open>1.375e-06\<close>, \<open>0.00032\<close> and \<open>0.000321375\<close>.
\<close>

theorem hello_world_values:
  "cost_estimator (text_of ''hello world'') =
     \<lparr>cost_input = 3246626956972881 / 2361183241434822606848,
      cost_output = 368934881474191 / 1152921504606846976,
      cost_total = 5928322376688407 / 18446744073709551616\<rparr>"
proof -
  have a: "fl (11 / 4000000) = 3246626956972881 / 1180591620717411303424"
    by (subst fl_eval[where e="-19"])
       (simp_all add: rne_def Let_def power_int_minus floor_rat_numeral_divide)
  have a': "fl (3246626956972881 / 2361183241434822606848) = 3246626956972881 / 2361183241434822606848"
    using fl_exact[of 3246626956972881 "-71"] by (simp add: power_int_minus)
  have b: "fl (1 / 31250) = 4722366482869645 / 147573952589676412928"
    by (subst fl_eval[where e="-15"])
       (simp_all add: rne_def Let_def power_int_minus floor_rat_numeral_divide)
  have c: "fl (23611832414348225 / 73786976294838206464) = 368934881474191 / 1152921504606846976"
    by (subst fl_eval[where e="-12"])
       (simp_all add: rne_def Let_def power_int_minus floor_rat_numeral_divide)
  have d: "fl (758825264216116049 / 2361183241434822606848) = 5928322376688407 / 18446744073709551616"
    by (subst fl_eval[where e="-12"])
       (simp_all add: rne_def Let_def power_int_minus floor_rat_numeral_divide)
  have e: "fl 32 = 32" using fl_of_int[of 32] by simp
  show ?thesis
    by (simp add: cost_estimator_def Let_def hello_world_counts float_constants e
        INPUT_TOKEN_CHARS_def INPUT_COST_PER_MILLION_def OUTPUT_TOKENS_PER_SECOND_def
        WORDS_PER_SECOND_def OUTPUT_COST_PER_MILLION_def float_truediv_def float_mul_def
        float_add_def a a' b c d)
qed

end
